theory Spec2Isabelle
  imports Main "HOL-Library.Code_Target_Nat"
begin

unbundle bit_operations_syntax

section \<open>Constants and failures\<close>

text \<open>
  The constants of \<^verbatim>\<open>oniongen.c\<close> (lines 54 to 57).
\<close>

definition REND_SERVICE_ID_LEN_BASE32 :: nat where
  "REND_SERVICE_ID_LEN_BASE32 = 16"

definition REND_SERVICE_ID_LEN :: nat where
  "REND_SERVICE_ID_LEN = 10"

definition DIGEST_LEN :: nat where
  "DIGEST_LEN = 20"

text \<open>
  The program is compiled with assertions enabled (the calls that do the work sit inside
  \<^verbatim>\<open>assert\<close>). A failed \<^verbatim>\<open>assert\<close> aborts the process; \<open>Assertion_Failed l\<close> is the
  abort raised by the assertion at line \<open>l\<close> of \<^verbatim>\<open>oniongen.c\<close>. \<open>Out_Of_Bounds\<close> is
  an access outside the buffer a pointer refers to (undefined behaviour in C).
  A computation returns \<open>Some (Inr x)\<close> when it returns \<open>x\<close>, \<open>Some (Inl f)\<close> when it
  stops with the failure \<open>f\<close>, and \<open>None\<close> when it runs forever.
\<close>

datatype failure = Assertion_Failed nat | Out_Of_Bounds

section \<open>C strings\<close>

text \<open>
  A \<^verbatim>\<open>char *\<close> is modelled by the list of the bytes it points to. The string it
  holds ends before the first NUL byte, or with the list when the list holds none
  (the terminator of a string argument is left implicit).
\<close>

definition NUL :: char where
  "NUL = CHR 0x00"

definition c_str :: "string \<Rightarrow> string" where
  "c_str s = takeWhile (\<lambda>c. c \<noteq> NUL) s"

definition strlen :: "string \<Rightarrow> nat" where
  "strlen s = length (c_str s)"

text \<open>
  \<^verbatim>\<open>strncmp\<close> of the C library: compares at most \<open>n\<close> characters as unsigned bytes
  and stops after a NUL.
\<close>

fun strncmp :: "string \<Rightarrow> string \<Rightarrow> nat \<Rightarrow> int" where
  "strncmp s1 s2 0 = 0"
| "strncmp s1 s2 (Suc n) =
     (let c1 = (case s1 of [] \<Rightarrow> NUL | c # _ \<Rightarrow> c);
          c2 = (case s2 of [] \<Rightarrow> NUL | c # _ \<Rightarrow> c)
      in if c1 \<noteq> c2 then int (of_char c1) - int (of_char c2)
         else if c1 = NUL then 0
         else strncmp (tl s1) (tl s2) n)"

text \<open>\<^verbatim>\<open>islower\<close> of the C library in the C locale (the program never sets another).\<close>

definition islower :: "char \<Rightarrow> bool" where
  "islower c = (of_char (CHR ''a'') \<le> (of_char c :: nat) \<and> (of_char c :: nat) \<le> of_char (CHR ''z''))"

section \<open>Pattern validation\<close>

text \<open>
  \<^verbatim>\<open>
  bool pattern_is_not_too_long(const char *pattern) {
    return strlen(pattern) <= REND_SERVICE_ID_LEN_BASE32;
  }
  \<close>
\<close>

definition pattern_is_not_too_long :: "string \<Rightarrow> bool" where
  "pattern_is_not_too_long pattern = (strlen pattern \<le> REND_SERVICE_ID_LEN_BASE32)"

text \<open>
  The loop of \<^verbatim>\<open>pattern_has_valid_chars\<close> (lines 124 to 129):
  \<^verbatim>\<open>
  for (i = 0; i < strlen(pattern); i++) {
    if (!(islower(pattern[i]) || (pattern[i] >= 2 && pattern[i] <= 7))) {
      return false;
    }
  }
  return true;
  \<close>
  The counter \<open>i\<close> is a \<^verbatim>\<open>uint8_t\<close>: its increment wraps at \<open>2 ^ 8\<close>. The
  comparisons with \<open>2\<close> and \<open>7\<close> are comparisons of the character's code with the
  integers 2 and 7; a byte above 127 fails them whether \<^verbatim>\<open>char\<close> is signed
  (it is negative) or unsigned (it is above 7).
\<close>

partial_function (option) valid_chars_loop :: "string \<Rightarrow> nat \<Rightarrow> bool option" where
  "valid_chars_loop pattern i =
     (if i < strlen pattern then
        (if \<not> (islower (pattern ! i)
                \<or> (2 \<le> (of_char (pattern ! i) :: nat) \<and> (of_char (pattern ! i) :: nat) \<le> 7))
         then Some False
         else valid_chars_loop pattern ((i + 1) mod 2 ^ 8))
      else Some True)"

declare valid_chars_loop.simps [code]

text \<open>What the loop of \<^verbatim>\<open>pattern_has_valid_chars\<close> accepts in a character.\<close>

definition accepted_char :: "char \<Rightarrow> bool" where
  "accepted_char c = (islower c \<or> (2 \<le> (of_char c :: nat) \<and> (of_char c :: nat) \<le> 7))"

text \<open>
  \<^verbatim>\<open>pattern_has_valid_chars\<close> (lines 118 to 132): the assertion of line 121, then the
  loop.
\<close>

definition pattern_has_valid_chars :: "string \<Rightarrow> (failure + bool) option" where
  "pattern_has_valid_chars pattern =
     (if \<not> pattern_is_not_too_long pattern then Some (Inl (Assertion_Failed 121))
      else map_option Inr (valid_chars_loop pattern 0))"

text \<open>
  Validation is the head of \<^verbatim>\<open>generate_service\<close> (lines 93 and 94):
  \<^verbatim>\<open>
  assert(pattern_is_not_too_long(pattern));
  assert(pattern_has_valid_chars(pattern));
  \<close>
  \<^verbatim>\<open>assert\<close> reports the expression and the line that failed before it aborts, so
  the two aborts are told apart: the abort of line 93 is the error kind the
  specification calls TooLong, the abort of line 94 the one it calls InvalidCharacter.
\<close>

abbreviation TooLong :: failure where
  "TooLong \<equiv> Assertion_Failed 93"

abbreviation InvalidCharacter :: failure where
  "InvalidCharacter \<equiv> Assertion_Failed 94"

definition validate :: "string \<Rightarrow> (failure + unit) option" where
  "validate pattern =
     (if \<not> pattern_is_not_too_long pattern then Some (Inl TooLong)
      else case pattern_has_valid_chars pattern of
             None \<Rightarrow> None
           | Some (Inl f) \<Rightarrow> Some (Inl f)
           | Some (Inr ok) \<Rightarrow> if ok then Some (Inr ()) else Some (Inl InvalidCharacter))"

section \<open>Pattern matching\<close>

text \<open>
  \<^verbatim>\<open>
  bool pattern_matches_service_id(const char *pattern, const char *service_id) {
    return strncmp(pattern, service_id, strlen(pattern)) == 0;
  }
  \<close>
\<close>

definition pattern_matches_service_id :: "string \<Rightarrow> string \<Rightarrow> bool" where
  "pattern_matches_service_id pattern service_id =
     (strncmp pattern service_id (strlen pattern) = 0)"

section \<open>Base32 encoding\<close>

definition BASE32_CHARS :: string where
  "BASE32_CHARS = ''abcdefghijklmnopqrstuvwxyz234567''"

text \<open>
  The body of the loop of \<^verbatim>\<open>base32_encode\<close> (lines 213 to 216) computes the 5-bit
  value \<open>u\<close> at bit offset \<open>bit\<close> (written \<open>bit'\<close> below):
  \<^verbatim>\<open>
  v = ((uint8_t)src[bit/8]) << 8;
  if (bit+5<nbits) v += (uint8_t)src[(bit/8)+1];
  u = (v >> (11-(bit%8))) & 0x1F;
  \<close>
  \<open>bit\<close> and \<open>nbits\<close> are \<^verbatim>\<open>size_t\<close> values, taken as 64 bits wide: \<open>bit + 5\<close>
  wraps at \<open>2 ^ 64\<close>. \<open>v\<close> stays below \<open>2 ^ 16\<close>, so its \<^verbatim>\<open>unsigned int\<close>
  arithmetic never wraps.
\<close>

definition base32_u :: "string \<Rightarrow> nat \<Rightarrow> nat \<Rightarrow> nat" where
  "base32_u src nbits bit' =
     (let v = push_bit 8 (of_char (src ! (bit' div 8)) :: nat);
          v = (if (bit' + 5) mod 2 ^ 64 < nbits
               then v + of_char (src ! (bit' div 8 + 1)) else v)
      in drop_bit (11 - bit' mod 8) v AND 0x1F)"

text \<open>
  The loop (lines 211 to 218):
  \<^verbatim>\<open>
  for (i=0,bit=0; bit < nbits; ++i, bit+=5) {
    ...
    dest[i] = BASE32_CHARS[u];
  }
  \<close>
  The index \<open>i\<close> is an \<^verbatim>\<open>unsigned int\<close>, taken as 32 bits wide: \<open>++i\<close> wraps at
  \<open>2 ^ 32\<close>. A read of \<open>src\<close> or a write of \<open>dest\<close> outside the list is
  \<open>Out_Of_Bounds\<close>. The loop returns the final \<open>i\<close> and \<open>dest\<close>.
\<close>

partial_function (option) base32_encode_loop ::
  "string \<Rightarrow> nat \<Rightarrow> string \<Rightarrow> nat \<Rightarrow> nat \<Rightarrow> (failure + nat \<times> string) option" where
  "base32_encode_loop src nbits dest i bit' =
     (if bit' < nbits then
        (if length src \<le> bit' div 8 then Some (Inl Out_Of_Bounds)
         else if (bit' + 5) mod 2 ^ 64 < nbits \<and> length src \<le> bit' div 8 + 1
           then Some (Inl Out_Of_Bounds)
         else if length dest \<le> i then Some (Inl Out_Of_Bounds)
         else base32_encode_loop src nbits (dest[i := BASE32_CHARS ! base32_u src nbits bit'])
                ((i + 1) mod 2 ^ 32) ((bit' + 5) mod 2 ^ 64))
      else Some (Inr (i, dest)))"

declare base32_encode_loop.simps [code]

text \<open>
  \<^verbatim>\<open>
  void base32_encode(char *dest, size_t destlen, const char *src, size_t srclen) {
    size_t nbits = srclen * 8, bit;
    assert((nbits%5) == 0);
    assert((nbits/5)+1 <= destlen);
    for (...) {...}
    dest[i] = '\0';
  }
  \<close>
  The product \<open>srclen * 8\<close> wraps at \<open>2 ^ 64\<close>. The function returns the buffer
  \<open>dest\<close> as it leaves it.
\<close>

definition base32_encode :: "string \<Rightarrow> nat \<Rightarrow> string \<Rightarrow> nat \<Rightarrow> (failure + string) option" where
  "base32_encode dest destlen src srclen =
     (let nbits = (srclen * 8) mod 2 ^ 64 in
      if \<not> (nbits mod 5 = 0) then Some (Inl (Assertion_Failed 208))
      else if \<not> (nbits div 5 + 1 \<le> destlen) then Some (Inl (Assertion_Failed 209))
      else case base32_encode_loop src nbits dest 0 0 of
             None \<Rightarrow> None
           | Some (Inl f) \<Rightarrow> Some (Inl f)
           | Some (Inr (i, dest')) \<Rightarrow>
               if length dest' \<le> i then Some (Inl Out_Of_Bounds)
               else Some (Inr (dest'[i := NUL])))"

subsection \<open>The encoding as the specification words it\<close>

text \<open>
  The specification reads \<open>src\<close> as a stream of bits, the most significant bit of each
  byte first, cuts it into windows of 5 bits at the offsets 0, 5, 10, ..., and maps the
  value of each window through the alphabet. These definitions follow its words; the
  theorems compare them with \<open>base32_encode\<close>. When the bit length is a multiple of
  5 every window is whole, and no padding bit enters a value.
\<close>

definition spec_byte_bits :: "char \<Rightarrow> bool list" where
  "spec_byte_bits c = map (\<lambda>j. bit (of_char c :: nat) (7 - j)) [0..<8]"

definition spec_bitstream :: "string \<Rightarrow> bool list" where
  "spec_bitstream src = concat (map spec_byte_bits src)"

definition spec_bits_value :: "bool list \<Rightarrow> nat" where
  "spec_bits_value bs = foldl (\<lambda>a b. 2 * a + of_bool b) 0 bs"

definition spec_window :: "string \<Rightarrow> nat \<Rightarrow> nat" where
  "spec_window src i = spec_bits_value (take 5 (drop (5 * i) (spec_bitstream src)))"

definition spec_base32 :: "string \<Rightarrow> string" where
  "spec_base32 src = map (\<lambda>i. BASE32_CHARS ! spec_window src i) [0..<(length src * 8) div 5]"

text \<open>
  The \<open>w\<close> low bits of a number, most significant first: the bits of a byte are
  \<open>msb_bits 8\<close> of its code, those of the 16-bit value \<open>v\<close> are \<open>msb_bits 16 v\<close>.
\<close>

definition msb_bits :: "nat \<Rightarrow> nat \<Rightarrow> bool list" where
  "msb_bits w n = map (\<lambda>j. bit n (w - 1 - j)) [0..<w]"

section \<open>Deriving the service identifier\<close>

text \<open>
  The OpenSSL primitives are parameters of the model:
  \<^item> \<open>RSA_generate_key E n\<close> is what the call
    \<^verbatim>\<open>RSA_generate_key(KEYSIZE, PUBLIC_EXPONENT, NULL, NULL)\<close> returns when \<open>n\<close> keys
    were generated before it (\<open>None\<close> is \<^verbatim>\<open>NULL\<close>);
  \<^item> \<open>i2d_RSAPublicKey E pk\<close> is the DER encoding of the public part of \<open>pk\<close>
    (\<open>None\<close> is a negative return value);
  \<^item> \<open>SHA1 E m\<close> is the digest of \<open>m\<close> (\<open>None\<close> is \<^verbatim>\<open>NULL\<close>);
  \<^item> \<open>mkdir\<close>, \<open>fopen\<close> and \<open>PEM_write_RSAPrivateKey\<close> are the results of the
    calls of \<^verbatim>\<open>export_private_key\<close>.
  \<^verbatim>\<open>malloc\<close> is taken to succeed.
\<close>

record 'rsa primitives =
  RSA_generate_key :: "nat \<Rightarrow> 'rsa option"
  i2d_RSAPublicKey :: "'rsa \<Rightarrow> string option"
  SHA1 :: "string \<Rightarrow> string option"
  mkdir :: "string \<Rightarrow> int"
  fopen :: "string \<Rightarrow> bool"
  PEM_write_RSAPrivateKey :: "'rsa \<Rightarrow> int"

text \<open>
  \<^verbatim>\<open>
  bool crypto_digest(char *digest, const char *m, size_t len) {
    return (SHA1((const unsigned char*)m,len,(unsigned char*)digest) != NULL);
  }
  \<close>
  The digest is written over the head of the buffer \<open>digest\<close>.
\<close>

definition crypto_digest ::
  "('rsa, 'x) primitives_scheme \<Rightarrow> string \<Rightarrow> string \<Rightarrow> nat \<Rightarrow> bool \<times> string" where
  "crypto_digest E digest m len =
     (case SHA1 E (take len m) of
        None \<Rightarrow> (False, digest)
      | Some d \<Rightarrow> (True, d @ drop (length d) digest))"

text \<open>
  \<^verbatim>\<open>
  bool crypto_pk_get_digest(RSA *pk, char *digest_out) {
    len = i2d_RSAPublicKey(pk, NULL);
    assert(len >= 0);
    buf = bufp = malloc(len+1);
    len = i2d_RSAPublicKey(pk, &bufp);
    assert(len >= 0);
    assert(crypto_digest(digest_out, (char*)buf, len));
    free(buf);
    return true;
  }
  \<close>
\<close>

definition crypto_pk_get_digest ::
  "('rsa, 'x) primitives_scheme \<Rightarrow> 'rsa \<Rightarrow> string \<Rightarrow> failure + bool \<times> string" where
  "crypto_pk_get_digest E pk digest_out =
     (case i2d_RSAPublicKey E pk of
        None \<Rightarrow> Inl (Assertion_Failed 184)
      | Some _ \<Rightarrow>
          (case i2d_RSAPublicKey E pk of
             None \<Rightarrow> Inl (Assertion_Failed 189)
           | Some buf \<Rightarrow>
               (case crypto_digest E digest_out buf (length buf) of
                  (ok, digest_out') \<Rightarrow>
                    if \<not> ok then Inl (Assertion_Failed 191)
                    else Inr (True, digest_out'))))"

text \<open>
  \<^verbatim>\<open>
  bool rend_get_service_id(RSA *pk, char *out) {
    char buf[DIGEST_LEN];
    assert(crypto_pk_get_digest(pk, buf));
    base32_encode(out, REND_SERVICE_ID_LEN_BASE32+1, buf, REND_SERVICE_ID_LEN);
    return true;
  }
  \<close>
\<close>

definition rend_get_service_id ::
  "('rsa, 'x) primitives_scheme \<Rightarrow> 'rsa \<Rightarrow> string \<Rightarrow> (failure + bool \<times> string) option" where
  "rend_get_service_id E pk out =
     (case crypto_pk_get_digest E pk (replicate DIGEST_LEN NUL) of
        Inl f \<Rightarrow> Some (Inl f)
      | Inr (ok, buf) \<Rightarrow>
          if \<not> ok then Some (Inl (Assertion_Failed 173))
          else (case base32_encode out (REND_SERVICE_ID_LEN_BASE32 + 1) buf REND_SERVICE_ID_LEN of
                  None \<Rightarrow> None
                | Some (Inl f) \<Rightarrow> Some (Inl f)
                | Some (Inr out') \<Rightarrow> Some (Inr (True, out'))))"

section \<open>The search\<close>

text \<open>
  The loop of \<^verbatim>\<open>generate_service\<close> (lines 97 to 104):
  \<^verbatim>\<open>
  do {
    private_key = RSA_generate_key(KEYSIZE, PUBLIC_EXPONENT, NULL, NULL);
    assert(private_key != NULL);
    assert(rend_get_service_id(private_key, service_id));
  } while (!pattern_matches_service_id(pattern, service_id));
  \<close>
  \<open>n\<close> counts the keys generated so far. The variable \<^verbatim>\<open>private_key\<close> holds one
  key: the assignment of the next round overwrites the only pointer to the key of a
  round that did not match, so the program can reach that key no more (it does not
  free it either: the source never calls \<^verbatim>\<open>RSA_free\<close>). \<open>overwritten\<close> lists
  these keys, oldest first. The loop returns the last key, the buffer \<open>service_id\<close>,
  the count and the overwritten keys.
\<close>

partial_function (option) search_loop ::
  "('rsa, 'x) primitives_scheme \<Rightarrow> string \<Rightarrow> nat \<Rightarrow> string \<Rightarrow> 'rsa list
     \<Rightarrow> (failure + 'rsa \<times> string \<times> nat \<times> 'rsa list) option" where
  "search_loop E pattern n service_id overwritten =
     (case RSA_generate_key E n of
        None \<Rightarrow> Some (Inl (Assertion_Failed 100))
      | Some private_key \<Rightarrow>
          (case rend_get_service_id E private_key service_id of
             None \<Rightarrow> None
           | Some (Inl f) \<Rightarrow> Some (Inl f)
           | Some (Inr (ok, service_id')) \<Rightarrow>
               if \<not> ok then Some (Inl (Assertion_Failed 103))
               else if \<not> pattern_matches_service_id pattern service_id'
                 then search_loop E pattern (n + 1) service_id' (overwritten @ [private_key])
               else Some (Inr (private_key, service_id', n + 1, overwritten))))"

declare search_loop.simps [code]

text \<open>
  The state of the world around the process: how many keys were generated, and the PEM
  files written (path and key).
\<close>

record 'rsa world =
  keys_generated :: nat
  pem_files :: "(string \<times> 'rsa) list"

text \<open>
  \<^verbatim>\<open>export_private_key\<close> (lines 136 to 162) creates the directory \<open>pattern\<close> and
  writes the key to the file \<^verbatim>\<open>private_key\<close> in it; each step is asserted.
\<close>

definition export_private_key ::
  "('rsa, 'x) primitives_scheme \<Rightarrow> 'rsa \<Rightarrow> string \<Rightarrow> 'rsa world \<Rightarrow> failure + 'rsa world" where
  "export_private_key E private_key pattern w =
     (let file_path = ''/private_key'' in
      if \<not> (mkdir E (c_str pattern) = 0) then Inl (Assertion_Failed 145)
      else let file_relpath = c_str pattern @ file_path in
        if \<not> fopen E file_relpath then Inl (Assertion_Failed 155)
        else if \<not> (PEM_write_RSAPrivateKey E private_key = 1) then Inl (Assertion_Failed 157)
        else Inr (w\<lparr>pem_files := (file_relpath, private_key) # pem_files w\<rparr>))"

text \<open>
  \<^verbatim>\<open>generate_service\<close> (lines 85 to 109): validation, the search, the export. The
  buffer \<^verbatim>\<open>char service_id[REND_SERVICE_ID_LEN_BASE32 + 1]\<close> starts with arbitrary
  content, here NUL bytes; the first round overwrites it. Only the last key goes to
  the export; the overwritten keys are used no more.
\<close>

definition generate_service ::
  "('rsa, 'x) primitives_scheme \<Rightarrow> string \<Rightarrow> 'rsa world \<Rightarrow> (failure + 'rsa world) option" where
  "generate_service E pattern w =
     (case validate pattern of
        None \<Rightarrow> None
      | Some (Inl f) \<Rightarrow> Some (Inl f)
      | Some (Inr _) \<Rightarrow>
          (case search_loop E pattern (keys_generated w)
                  (replicate (REND_SERVICE_ID_LEN_BASE32 + 1) NUL) [] of
             None \<Rightarrow> None
           | Some (Inl f) \<Rightarrow> Some (Inl f)
           | Some (Inr (private_key, service_id, n, overwritten)) \<Rightarrow>
               Some (export_private_key E private_key pattern (w\<lparr>keys_generated := n\<rparr>))))"

text \<open>
  \<^verbatim>\<open>
  int main(int argc, const char *argv[]) {
    if (argc == 2) {
      generate_service(argv[1]);
    }
    return 0;
  }
  \<close>
  \<open>argc\<close> is the length of \<open>argv\<close>; the result is the exit status and the world.
\<close>

definition main :: "('rsa, 'x) primitives_scheme \<Rightarrow> string list \<Rightarrow> 'rsa world
    \<Rightarrow> (failure + int \<times> 'rsa world) option" where
  "main E argv w =
     (if int (length argv) = 2 then
        (case generate_service E (argv ! 1) w of
           None \<Rightarrow> None
         | Some (Inl f) \<Rightarrow> Some (Inl f)
         | Some (Inr w') \<Rightarrow> Some (Inr (0, w')))
      else Some (Inr (0, w)))"

text \<open>
  The identifier of a key: the string \<^verbatim>\<open>rend_get_service_id\<close> leaves in a buffer of
  \<open>REND_SERVICE_ID_LEN_BASE32 + 1\<close> bytes, \<open>None\<close> when it does not return.
\<close>

definition service_id_of :: "('rsa, 'x) primitives_scheme \<Rightarrow> 'rsa \<Rightarrow> string option" where
  "service_id_of E pk =
     (case rend_get_service_id E pk (replicate (REND_SERVICE_ID_LEN_BASE32 + 1) NUL) of
        Some (Inr (True, out)) \<Rightarrow> Some (c_str out)
      | _ \<Rightarrow> None)"

section \<open>A mock environment\<close>

text \<open>
  A mock of the primitives, for running the model on concrete inputs: the \<open>n\<close>-th key
  generated is the number \<open>n\<close>, the encoding of the key \<open>pk\<close> is the single byte
  \<open>8 * pk\<close>, the digest of a message is its first byte, 20 times, and creating the
  directory and writing the file succeed. \<open>world\<^sub>0\<close> is the world before the program
  runs.
\<close>

definition mock :: "nat primitives" where
  "mock = \<lparr>RSA_generate_key = (\<lambda>n. Some n),
            i2d_RSAPublicKey = (\<lambda>pk. Some [char_of (8 * pk)]),
            SHA1 = (\<lambda>m. Some (replicate 20 (case m of [] \<Rightarrow> NUL | c # _ \<Rightarrow> c))),
            mkdir = (\<lambda>_. 0),
            fopen = (\<lambda>_. True),
            PEM_write_RSAPrivateKey = (\<lambda>_. 1)\<rparr>"

definition world\<^sub>0 :: "nat world" where
  "world\<^sub>0 = \<lparr>keys_generated = 0, pem_files = []\<rparr>"

section \<open>Pattern validation: proofs\<close>

lemma c_str_nth: "i < strlen s \<Longrightarrow> s ! i = c_str s ! i"
  by (simp add: strlen_def c_str_def takeWhile_nth)

lemma valid_chars_loop_total:
  "strlen pattern \<le> 255 \<Longrightarrow> i \<le> strlen pattern \<Longrightarrow>
   valid_chars_loop pattern i = Some (list_all accepted_char (drop i (c_str pattern)))"
proof (induction "strlen pattern - i" arbitrary: i)
  case 0
  then have "i = strlen pattern" by simp
  then show ?case
    by (subst valid_chars_loop.simps) (simp add: strlen_def)
next
  case (Suc k)
  then have lt: "i < strlen pattern" by simp
  then have m: "(i + 1) mod 2 ^ 8 = Suc i" using Suc.prems by simp
  have d: "drop i (c_str pattern) = c_str pattern ! i # drop (Suc i) (c_str pattern)"
    using lt by (simp add: strlen_def Cons_nth_drop_Suc)
  have ih: "valid_chars_loop pattern (Suc i)
            = Some (list_all accepted_char (drop (Suc i) (c_str pattern)))"
    using Suc.hyps(1) [of "Suc i"] Suc.hyps(2) Suc.prems lt by simp
  have step: "valid_chars_loop pattern i
              = (if \<not> accepted_char (pattern ! i) then Some False
                 else valid_chars_loop pattern ((i + 1) mod 2 ^ 8))"
    by (subst valid_chars_loop.simps) (simp only: lt accepted_char_def if_True)
  show ?case
    unfolding step m ih d using lt by (simp add: c_str_nth)
qed

lemma pattern_has_valid_chars_eq:
  "pattern_has_valid_chars pattern =
     (if strlen pattern \<le> 16 then Some (Inr (list_all accepted_char (c_str pattern)))
      else Some (Inl (Assertion_Failed 121)))"
  by (simp add: pattern_has_valid_chars_def pattern_is_not_too_long_def
      REND_SERVICE_ID_LEN_BASE32_def valid_chars_loop_total)

lemma validate_eq:
  "validate pattern =
     (if 16 < strlen pattern then Some (Inl TooLong)
      else if list_all accepted_char (c_str pattern) then Some (Inr ())
      else Some (Inl InvalidCharacter))"
  by (simp add: validate_def pattern_has_valid_chars_eq pattern_is_not_too_long_def
      REND_SERVICE_ID_LEN_BASE32_def)

lemma strncmp_zero_iff:
  "strncmp s1 s2 n = 0 \<longleftrightarrow> take n (c_str s1) = take n (c_str s2)"
proof (induction n arbitrary: s1 s2)
  case 0
  show ?case by simp
next
  case (Suc n)
  show ?case
    by (cases s1; cases s2) (auto simp: c_str_def Suc Let_def)
qed

lemma pattern_matches_service_id_iff:
  "pattern_matches_service_id pattern service_id
     \<longleftrightarrow> take (strlen pattern) (c_str service_id) = c_str pattern"
  by (auto simp: pattern_matches_service_id_def strncmp_zero_iff strlen_def)

text \<open>
  Claim C6. For every pattern, validation fails with TooLong if and only if the length
  of the pattern is strictly greater than 16, the length of a service identifier; a
  pattern of length at most 16 is never rejected as too long.
\<close>

theorem validate_TooLong_iff:
  "validate pattern = Some (Inl TooLong) \<longleftrightarrow> 16 < strlen pattern"
  by (simp add: validate_eq)

text \<open>
  Claim C8 says that validation of the pattern \<^verbatim>\<open>toolongpattern!!\<close> fails with
  TooLong. The pattern has 16 characters, not 17, so the length check accepts it: the
  claim as stated is false.
\<close>

theorem validate_toolongpattern_counterexample:
  "validate ''toolongpattern!!'' \<noteq> Some (Inl TooLong)"
  by (simp add: validate_eq strlen_def c_str_def NUL_def)

text \<open>
  Claim C8, amended. The pattern \<^verbatim>\<open>toolongpattern!!\<close> has 16 characters, and its
  validation fails with InvalidCharacter (the character \<^verbatim>\<open>!\<close> is rejected).
\<close>

theorem validate_toolongpattern:
  "strlen ''toolongpattern!!'' = 16 \<and> validate ''toolongpattern!!'' = Some (Inl InvalidCharacter)"
  by (simp add: validate_eq strlen_def c_str_def NUL_def accepted_char_def islower_def)

text \<open>
  Claim C3 says that validation accepts every pattern of at most 16 characters made of
  the letters a to z and the digits 2 to 7, \<^verbatim>\<open>abc234\<close> among them. The loop
  compares each character with the integers 2 and 7 and not with the characters
  \<^verbatim>\<open>'2'\<close> and \<^verbatim>\<open>'7'\<close>: on \<^verbatim>\<open>abc234\<close> validation fails with
  InvalidCharacter.
\<close>

theorem validate_abc234:
  "pattern_has_valid_chars ''abc234'' = Some (Inr False)
   \<and> validate ''abc234'' = Some (Inl InvalidCharacter)"
  by (simp add: validate_eq pattern_has_valid_chars_eq strlen_def c_str_def NUL_def
      accepted_char_def islower_def)

text \<open>
  Claim C10. \<^verbatim>\<open>pattern_has_valid_chars\<close> asserts \<^verbatim>\<open>pattern_is_not_too_long\<close>: on a
  pattern of length at most 16 the assertion never fires and the check returns a
  boolean; on a longer pattern the check aborts at the assertion of line 121 instead
  of returning.
\<close>

theorem pattern_has_valid_chars_assertion:
  "(strlen pattern \<le> 16 \<longrightarrow> (\<exists>b. pattern_has_valid_chars pattern = Some (Inr b)))
   \<and> (16 < strlen pattern \<longrightarrow> pattern_has_valid_chars pattern = Some (Inl (Assertion_Failed 121)))"
  by (simp add: pattern_has_valid_chars_eq)

theorem pattern_has_valid_chars_assertion_witness:
  "strlen ''abc'' \<le> 16 \<and> (\<exists>b. pattern_has_valid_chars ''abc'' = Some (Inr b))
   \<and> 16 < strlen ''abcdefghijklmnopq''
   \<and> pattern_has_valid_chars ''abcdefghijklmnopq'' = Some (Inl (Assertion_Failed 121))"
  using pattern_has_valid_chars_assertion [of "''abc''"]
    pattern_has_valid_chars_assertion [of "''abcdefghijklmnopq''"]
  by (simp add: strlen_def c_str_def NUL_def)

text \<open>
  Claim C4. The matcher returns true if and only if the leading \<open>strlen pattern\<close>
  characters of the identifier equal the pattern, byte for byte; the empty pattern
  matches every identifier, \<^verbatim>\<open>abc\<close> matches \<^verbatim>\<open>abcdefghij234567\<close> and
  \<^verbatim>\<open>xyz\<close> does not.
\<close>

theorem pattern_matches_service_id_prefix:
  "(pattern_matches_service_id pattern service_id
      \<longleftrightarrow> take (strlen pattern) (c_str service_id) = c_str pattern)
   \<and> pattern_matches_service_id [] service_id
   \<and> pattern_matches_service_id ''abc'' ''abcdefghij234567''
   \<and> \<not> pattern_matches_service_id ''xyz'' ''abcdefghij234567''"
  by (simp add: pattern_matches_service_id_iff strlen_def c_str_def NUL_def)

section \<open>Base32 encoding: proofs\<close>

subsection \<open>Bits, most significant first\<close>

lemma length_msb_bits: "length (msb_bits w n) = w"
  by (simp add: msb_bits_def)

lemma spec_byte_bits_msb: "spec_byte_bits c = msb_bits 8 (of_char c)"
  by (simp add: spec_byte_bits_def msb_bits_def)

lemma spec_bits_value_snoc:
  "spec_bits_value (bs @ [b]) = 2 * spec_bits_value bs + of_bool b"
  by (simp add: spec_bits_value_def)

lemma msb_bits_Suc: "msb_bits (Suc m) n = msb_bits m (n div 2) @ [odd n]"
  by (rule nth_equalityI)
     (auto simp: msb_bits_def nth_append bit_Suc [symmetric] Suc_diff_Suc bit_0 less_Suc_eq
           simp del: upt_Suc)

lemma spec_bits_value_msb_bits: "spec_bits_value (msb_bits m n) = take_bit m n"
proof (induction m arbitrary: n)
  case 0
  show ?case by (simp add: msb_bits_def spec_bits_value_def)
next
  case (Suc m)
  show ?case
    by (simp add: msb_bits_Suc spec_bits_value_snoc Suc take_bit_Suc mod_2_eq_odd)
qed

lemma take_drop_msb_bits:
  "r + m \<le> w \<Longrightarrow> take m (drop r (msb_bits w n)) = msb_bits m (drop_bit (w - r - m) n)"
  by (rule nth_equalityI)
     (auto simp: msb_bits_def bit_drop_bit_eq intro!: arg_cong [of _ _ "bit n"])

lemma msb_bits_two_bytes:
  assumes "b < 256"
  shows "msb_bits 8 a @ msb_bits 8 b = msb_bits 16 (push_bit 8 a + b)"
proof -
  have b: "take_bit 8 b = b" using assms by (simp add: take_bit_nat_eq_self)
  have low: "k < 8" if "bit b k" for k
    using that bit_take_bit_iff [of 8 b k] by (simp add: b)
  have disj: "\<not> bit (push_bit 8 a) k \<or> \<not> bit b k" for k
    using low [of k] by (auto simp: bit_push_bit_iff)
  have bits: "bit (push_bit 8 a + b) k = (if k < 8 then bit b k else bit a (k - 8))" for k
    using low [of k] by (subst bit_disjunctive_add_iff) (use disj in \<open>auto simp: bit_push_bit_iff\<close>)
  show ?thesis
    by (rule nth_equalityI)
       (auto simp: msb_bits_def nth_append bits intro!: arg_cong [of _ _ "bit a"] arg_cong [of _ _ "bit b"])
qed

lemma spec_bits_value_lt: "spec_bits_value bs < 2 ^ length bs"
proof (induction bs rule: rev_induct)
  case Nil
  show ?case by (simp add: spec_bits_value_def)
next
  case (snoc b bs)
  then show ?case by (cases b) (simp_all add: spec_bits_value_snoc)
qed

lemma spec_window_lt: "spec_window src i < 32"
proof -
  have "spec_window src i < 2 ^ length (take 5 (drop (5 * i) (spec_bitstream src)))"
    unfolding spec_window_def by (rule spec_bits_value_lt)
  also have "\<dots> \<le> 2 ^ 5" by (rule power_increasing) simp_all
  finally show ?thesis by simp
qed

lemma length_spec_bitstream: "length (spec_bitstream src) = 8 * length src"
  by (induction src) (simp_all add: spec_bitstream_def spec_byte_bits_def)

lemma spec_bitstream_append:
  "spec_bitstream (xs @ ys) = spec_bitstream xs @ spec_bitstream ys"
  by (simp add: spec_bitstream_def)

lemma drop_spec_bitstream:
  assumes "k < length src"
  shows "drop (8 * k + r) (spec_bitstream src)
         = drop r (spec_byte_bits (src ! k) @ spec_bitstream (drop (Suc k) src))"
proof -
  have "spec_bitstream (take k src @ src ! k # drop (Suc k) src)
    = spec_bitstream (take k src) @ spec_byte_bits (src ! k) @ spec_bitstream (drop (Suc k) src)"
    by (simp add: spec_bitstream_def)
  then have "spec_bitstream src
    = spec_bitstream (take k src) @ spec_byte_bits (src ! k) @ spec_bitstream (drop (Suc k) src)"
    using assms by (simp add: id_take_nth_drop [symmetric])
  moreover have "length (spec_bitstream (take k src)) = 8 * k"
    using assms by (simp add: length_spec_bitstream)
  ultimately show ?thesis
    by (simp add: drop_append)
qed

lemma take_drop_append_left:
  "r + m \<le> length xs \<Longrightarrow> take m (drop r (xs @ ys)) = take m (drop r xs)"
  by simp

lemma and_31_take_bit: "(x::nat) AND 0x1F = take_bit 5 x"
proof -
  have "mask 5 = (31::nat)" by (simp add: mask_eq_exp_minus_1)
  then show ?thesis by (simp add: take_bit_eq_mask)
qed

lemma base32_u_window:
  assumes nbits: "nbits = 8 * srclen" and len: "srclen \<le> length src"
    and inside: "bit' + 5 \<le> nbits" and size: "nbits < 2 ^ 64"
  shows "base32_u src nbits bit'
         = spec_bits_value (take 5 (drop bit' (spec_bitstream (take srclen src))))"
proof -
  define k r where "k = bit' div 8" and "r = bit' mod 8"
  define s where "s = take srclen src"
  define b0 :: nat where "b0 = of_char (src ! k)"
  define b1 :: nat where "b1 = (if bit' + 5 < nbits then of_char (src ! (k + 1)) else 0)"
  have bit': "bit' = 8 * k + r" and r: "r < 8" by (simp_all add: k_def r_def)
  have k: "k < srclen" using inside nbits bit' by simp
  have ls: "length s = srclen" using len by (simp add: s_def)
  have sk: "s ! k = src ! k" using k by (simp add: s_def)
  have b1_lt: "b1 < 256" by (simp add: b1_def)
  have nowrap: "(bit' + 5) mod 2 ^ 64 = bit' + 5" using inside size by simp
  have code: "base32_u src nbits bit' = take_bit 5 (drop_bit (11 - r) (push_bit 8 b0 + b1))"
    unfolding base32_u_def Let_def nowrap and_31_take_bit b0_def b1_def k_def r_def
    by simp
  have "drop bit' (spec_bitstream s)
        = drop r (msb_bits 8 b0 @ spec_bitstream (drop (Suc k) s))"
    using drop_spec_bitstream [of k s r] k ls by (simp add: bit' sk spec_byte_bits_msb b0_def)
  moreover have "take 5 (drop r (msb_bits 8 b0 @ spec_bitstream (drop (Suc k) s)))
        = take 5 (drop r (msb_bits 8 b0 @ msb_bits 8 b1))"
  proof (cases "r \<le> 3")
    case True
    then show ?thesis by (simp add: length_msb_bits)
  next
    case False
    then have r3: "3 < r" by simp
    have k1: "k + 1 < srclen" using inside nbits bit' r3 by simp
    have "8 * k + r + 5 \<le> 8 * srclen" using inside by (simp only: nbits bit')
    then have "8 * k + r + 5 < 8 * srclen" using r3 r by arith
    then have lt: "bit' + 5 < nbits" by (simp only: nbits bit')
    have "drop (Suc k) s = s ! (k + 1) # drop (Suc (Suc k)) s"
      using k1 ls by (simp add: Cons_nth_drop_Suc)
    moreover have "s ! (k + 1) = src ! (k + 1)" using k1 by (simp add: s_def)
    ultimately have "spec_bitstream (drop (Suc k) s)
        = msb_bits 8 b1 @ spec_bitstream (drop (Suc (Suc k)) s)"
      using lt by (simp add: spec_bitstream_def spec_byte_bits_msb b1_def)
    then have "take 5 (drop r (msb_bits 8 b0 @ spec_bitstream (drop (Suc k) s)))
        = take 5 (drop r ((msb_bits 8 b0 @ msb_bits 8 b1) @ spec_bitstream (drop (Suc (Suc k)) s)))"
      by simp
    also have "\<dots> = take 5 (drop r (msb_bits 8 b0 @ msb_bits 8 b1))"
      using r by (intro take_drop_append_left) (simp add: length_msb_bits)
    finally show ?thesis .
  qed
  moreover have "take 5 (drop r (msb_bits 8 b0 @ msb_bits 8 b1))
        = msb_bits 5 (drop_bit (11 - r) (push_bit 8 b0 + b1))"
    using r by (simp add: msb_bits_two_bytes [OF b1_lt] take_drop_msb_bits)
  ultimately show ?thesis
    by (simp add: code s_def spec_bits_value_msb_bits)
qed

lemma base32_encode_loop_exit:
  "\<not> bit' < nbits \<Longrightarrow> base32_encode_loop src nbits dest i bit' = Some (Inr (i, dest))"
  by (subst base32_encode_loop.simps) simp

lemma base32_encode_loop_step:
  assumes "bit' < nbits" and "bit' div 8 < length src"
    and "bit' + 5 < nbits \<Longrightarrow> bit' div 8 + 1 < length src"
    and "i < length dest" and "(bit' + 5) mod 2 ^ 64 = bit' + 5"
  shows "base32_encode_loop src nbits dest i bit'
         = base32_encode_loop src nbits (dest[i := BASE32_CHARS ! base32_u src nbits bit'])
             ((i + 1) mod 2 ^ 32) (bit' + 5)"
proof -
  have "\<not> length src \<le> bit' div 8" using assms(2) by simp
  moreover have "\<not> (bit' + 5 < nbits \<and> length src \<le> bit' div 8 + 1)"
    using assms(3) by auto
  moreover have "\<not> length dest \<le> i" using assms(4) by simp
  ultimately show ?thesis
    by (subst base32_encode_loop.simps) (simp only: assms(1,5) if_True if_False)
qed

text \<open>The reads of the loop stay inside the first \<open>srclen\<close> bytes.\<close>

lemma base32_reads_inside:
  fixes nbits srclen i :: nat
  assumes "nbits = 8 * srclen" and "nbits mod 5 = 0" and "5 * i < nbits"
  shows "5 * i + 5 \<le> nbits" and "5 * i div 8 < srclen"
    and "5 * i + 5 < nbits \<Longrightarrow> 5 * i div 8 + 1 < srclen"
proof -
  show "5 * i + 5 \<le> nbits" using assms by arith
  show "5 * i div 8 < srclen" using assms(1,3) by arith
  assume "5 * i + 5 < nbits"
  then have "5 * i + 10 \<le> nbits" using assms(2) by arith
  then show "5 * i div 8 + 1 < srclen" using assms(1) by arith
qed

lemma base32_encode_loop_correct:
  assumes nbits: "nbits = 8 * srclen" and len: "srclen \<le> length src"
    and five: "nbits mod 5 = 0" and small: "nbits div 5 < 2 ^ 32"
    and room: "nbits div 5 \<le> length dest" and i: "i \<le> nbits div 5"
  shows "base32_encode_loop src nbits dest i (5 * i)
         = Some (Inr (nbits div 5,
             take i dest
             @ map (\<lambda>j. BASE32_CHARS ! spec_window (take srclen src) j) [i..<nbits div 5]
             @ drop (nbits div 5) dest))"
  using room i
proof (induction "nbits div 5 - i" arbitrary: i dest)
  case 0
  then have "i = nbits div 5" by simp
  then have "\<not> 5 * i < nbits" using five by arith
  then show ?case
    using \<open>i = nbits div 5\<close> by (simp add: base32_encode_loop_exit)
next
  case (Suc d)
  then have lt: "i < nbits div 5" by simp
  then have bl: "5 * i < nbits" by arith
  have size: "nbits < 2 ^ 64" using small by simp
  note inside = base32_reads_inside [OF nbits five bl]
  have nowrap: "(5 * i + 5) mod 2 ^ 64 = 5 * i + 5" using inside(1) size by simp
  have inc: "(i + 1) mod 2 ^ 32 = Suc i" using lt small by simp
  let ?c = "BASE32_CHARS ! base32_u src nbits (5 * i)"
  have u: "base32_u src nbits (5 * i) = spec_window (take srclen src) i"
    using base32_u_window [OF nbits len inside(1) size] by (simp add: spec_window_def)
  have "base32_encode_loop src nbits dest i (5 * i)
        = base32_encode_loop src nbits (dest[i := ?c]) ((i + 1) mod 2 ^ 32) (5 * i + 5)"
  proof (rule base32_encode_loop_step [OF bl _ _ _ nowrap])
    show "5 * i div 8 < length src" using inside(2) len by simp
    show "5 * i div 8 + 1 < length src" if "5 * i + 5 < nbits"
      using inside(3) [OF that] len by simp
    show "i < length dest" using lt Suc.prems by simp
  qed
  also have "\<dots> = base32_encode_loop src nbits (dest[i := ?c]) (Suc i) (5 * Suc i)"
    unfolding inc by (simp only: mult_Suc_right add.commute)
  also have "\<dots> = Some (Inr (nbits div 5,
             take (Suc i) (dest[i := ?c])
             @ map (\<lambda>j. BASE32_CHARS ! spec_window (take srclen src) j) [Suc i..<nbits div 5]
             @ drop (nbits div 5) (dest[i := ?c])))"
    using Suc.hyps(2) Suc.prems lt by (intro Suc.hyps(1)) simp_all
  also have "take (Suc i) (dest[i := ?c]) = take i dest @ [?c]"
    using lt Suc.prems by (simp add: take_Suc_conv_app_nth)
  also have "drop (nbits div 5) (dest[i := ?c]) = drop (nbits div 5) dest"
    using lt by simp
  finally show ?case
    using lt by (simp add: u upt_conv_Cons)
qed

lemma length_spec_base32: "length (spec_base32 src) = length src * 8 div 5"
  by (simp add: spec_base32_def)

lemma NUL_notin_BASE32_CHARS: "NUL \<notin> set BASE32_CHARS"
  by (simp add: BASE32_CHARS_def NUL_def)

lemma length_BASE32_CHARS: "length BASE32_CHARS = 32"
  by (simp add: BASE32_CHARS_def)

lemma spec_base32_alphabet: "set (spec_base32 src) \<subseteq> set BASE32_CHARS"
  by (auto simp: spec_base32_def length_BASE32_CHARS spec_window_lt intro!: nth_mem)

lemma c_str_append_NUL: "NUL \<notin> set xs \<Longrightarrow> c_str (xs @ NUL # ys) = xs"
proof -
  assume "NUL \<notin> set xs"
  then have "\<And>x. x \<in> set xs \<Longrightarrow> x \<noteq> NUL" by blast
  then have "takeWhile (\<lambda>c. c \<noteq> NUL) (xs @ NUL # ys) = xs @ takeWhile (\<lambda>c. c \<noteq> NUL) (NUL # ys)"
    by (rule takeWhile_append2)
  then show ?thesis by (simp add: c_str_def)
qed

lemma c_str_spec_base32: "c_str (spec_base32 src @ NUL # ys) = spec_base32 src"
  using spec_base32_alphabet [of src] NUL_notin_BASE32_CHARS
  by (intro c_str_append_NUL) blast

lemma base32_encode_correct:
  assumes len: "srclen \<le> length src" and five: "(srclen * 8) mod 5 = 0"
    and small: "srclen * 8 div 5 < 2 ^ 32"
    and room: "srclen * 8 div 5 + 1 \<le> destlen" and dl: "destlen \<le> length dest"
  shows "base32_encode dest destlen src srclen
         = Some (Inr (spec_base32 (take srclen src) @ NUL # drop (srclen * 8 div 5 + 1) dest))"
proof -
  define nbits where "nbits = 8 * srclen"
  define n where "n = nbits div 5"
  have n: "n = srclen * 8 div 5" by (simp add: n_def nbits_def mult.commute)
  have "nbits < 2 ^ 64" using small by (simp add: nbits_def)
  then have wrap: "(srclen * 8) mod 2 ^ 64 = nbits" by (simp add: nbits_def mult.commute)
  have five': "nbits mod 5 = 0" using five by (simp add: nbits_def mult.commute)
  have small': "nbits div 5 < 2 ^ 32" using small by (simp add: nbits_def mult.commute)
  have room': "nbits div 5 + 1 \<le> destlen" using room by (simp add: nbits_def mult.commute)
  have nd: "n < length dest" using room' dl by (simp add: n_def)
  define enc where "enc = spec_base32 (take srclen src)"
  have enc: "map (\<lambda>j. BASE32_CHARS ! spec_window (take srclen src) j) [0..<n] = enc"
    using len by (simp add: enc_def spec_base32_def n min_def)
  have le: "length enc = n"
    using len by (simp add: enc_def length_spec_base32 n min_def)
  have loop: "base32_encode_loop src nbits dest 0 0 = Some (Inr (n, enc @ drop n dest))"
    using base32_encode_loop_correct [OF nbits_def len five' small', of dest 0] nd
    by (simp add: n_def [symmetric] enc)
  have "drop n dest = dest ! n # drop (n + 1) dest"
    using nd by (simp add: Cons_nth_drop_Suc)
  then have upd: "(enc @ drop n dest)[n := NUL] = enc @ NUL # drop (n + 1) dest"
    by (simp add: list_update_append le)
  have inb: "\<not> length (enc @ drop n dest) \<le> n"
    using nd by (simp add: le)
  have "base32_encode dest destlen src srclen = Some (Inr ((enc @ drop n dest)[n := NUL]))"
    unfolding base32_encode_def Let_def wrap
    using five' room' inb by (simp add: loop)
  then have "base32_encode dest destlen src srclen = Some (Inr (enc @ NUL # drop (n + 1) dest))"
    by (simp only: upd)
  then show ?thesis
    by (simp only: enc_def n)
qed

subsection \<open>When the index wraps\<close>

lemma base32_encode_loop_index:
  assumes nbits: "nbits = 8 * srclen" and len: "srclen \<le> length src"
    and five: "nbits mod 5 = 0" and size: "nbits < 2 ^ 64"
    and room: "2 ^ 32 \<le> length dest" and j: "j \<le> nbits div 5" and i: "i < 2 ^ 32"
  shows "\<exists>dest'. base32_encode_loop src nbits dest i (5 * j)
                  = Some (Inr ((i + (nbits div 5 - j)) mod 2 ^ 32, dest'))
               \<and> length dest' = length dest"
  using room j i
proof (induction "nbits div 5 - j" arbitrary: i j dest)
  case 0
  then have "j = nbits div 5" by simp
  then have "\<not> 5 * j < nbits" using five by arith
  then show ?case
    using 0 by (simp add: base32_encode_loop_exit)
next
  case (Suc d)
  then have lt: "j < nbits div 5" by simp
  then have bl: "5 * j < nbits" by arith
  note inside = base32_reads_inside [OF nbits five bl]
  have nowrap: "(5 * j + 5) mod 2 ^ 64 = 5 * j + 5" using inside(1) size by simp
  let ?c = "BASE32_CHARS ! base32_u src nbits (5 * j)"
  have "base32_encode_loop src nbits dest i (5 * j)
        = base32_encode_loop src nbits (dest[i := ?c]) ((i + 1) mod 2 ^ 32) (5 * j + 5)"
  proof (rule base32_encode_loop_step [OF bl _ _ _ nowrap])
    show "5 * j div 8 < length src" using inside(2) len by simp
    show "5 * j div 8 + 1 < length src" if "5 * j + 5 < nbits"
      using inside(3) [OF that] len by simp
    show "i < length dest" using Suc.prems by simp
  qed
  also have "\<dots> = base32_encode_loop src nbits (dest[i := ?c]) ((i + 1) mod 2 ^ 32) (5 * Suc j)"
    by (simp only: mult_Suc_right add.commute)
  finally have step: "base32_encode_loop src nbits dest i (5 * j)
        = base32_encode_loop src nbits (dest[i := ?c]) ((i + 1) mod 2 ^ 32) (5 * Suc j)" .
  have "\<exists>dest'. base32_encode_loop src nbits (dest[i := ?c]) ((i + 1) mod 2 ^ 32) (5 * Suc j)
                  = Some (Inr (((i + 1) mod 2 ^ 32 + (nbits div 5 - Suc j)) mod 2 ^ 32, dest'))
               \<and> length dest' = length (dest[i := ?c])"
    using Suc.hyps(2) Suc.prems lt by (intro Suc.hyps(1)) simp_all
  moreover have "((i + 1) mod 2 ^ 32 + (nbits div 5 - Suc j)) mod 2 ^ 32
                 = (i + (nbits div 5 - j)) mod 2 ^ 32"
  proof -
    have "((i + 1) mod 2 ^ 32 + (nbits div 5 - Suc j)) mod 2 ^ 32
          = (i + 1 + (nbits div 5 - Suc j)) mod 2 ^ 32"
      by (rule mod_add_left_eq)
    also have "i + 1 + (nbits div 5 - Suc j) = i + (nbits div 5 - j)" using lt by simp
    finally show ?thesis .
  qed
  ultimately show ?case
    unfolding step by simp
qed

lemma c_str_NUL_head: "0 < length s \<Longrightarrow> c_str (s[0 := NUL]) = []"
  by (cases s) (simp_all add: c_str_def)

text \<open>
  Claim C1 says that for every byte sequence \<open>src\<close> whose bit length is a multiple
  of 5 the encoder outputs \<open>length src * 8 div 5\<close> characters. The index \<open>i\<close> of the
  output is an \<^verbatim>\<open>unsigned int\<close>: on a source of \<open>2684354560\<close> zero bytes (a bit
  length of \<open>5 * 2 ^ 32\<close>) it wraps to 0 after the last window, the terminator is
  written to \<open>dest[0]\<close>, and the string left in \<open>dest\<close> is empty. The claim as
  stated is false.
\<close>

theorem base32_encode_wraps:
  "(length (replicate 2684354560 NUL) * 8) mod 5 = 0
   \<and> length (replicate 2684354560 NUL) * 8 div 5 = 4294967296
   \<and> map_option (map_sum id c_str)
        (base32_encode (replicate 4294967297 (CHR ''x'')) 4294967297
           (replicate 2684354560 NUL) (length (replicate 2684354560 NUL)))
      = Some (Inr [])"
proof -
  let ?dest = "replicate 4294967297 (CHR ''x'')" and ?src = "replicate 2684354560 NUL"
  define nbits :: nat where "nbits = 8 * 2684354560"
  have wrap: "(2684354560 * 8) mod 2 ^ 64 = nbits" by (simp add: nbits_def)
  have five: "nbits mod 5 = 0" by (simp add: nbits_def)
  have n: "nbits div 5 = 4294967296" by (simp add: nbits_def)
  obtain dest' where loop:
      "base32_encode_loop ?src nbits ?dest 0 (5 * 0) = Some (Inr ((0 + (nbits div 5 - 0)) mod 2 ^ 32, dest'))"
    and ld: "length dest' = length ?dest"
    using base32_encode_loop_index [of nbits 2684354560 ?src ?dest 0 0] five
    by (auto simp: nbits_def)
  have loop0: "base32_encode_loop ?src nbits ?dest 0 0 = Some (Inr (0, dest'))"
    using loop by (simp add: n)
  have pos: "0 < length dest'" by (simp add: ld)
  have "base32_encode ?dest 4294967297 ?src 2684354560 = Some (Inr (dest'[0 := NUL]))"
    unfolding base32_encode_def Let_def wrap
    using five pos by (simp add: loop0 n)
  then have "map_option (map_sum id c_str) (base32_encode ?dest 4294967297 ?src 2684354560)
             = Some (Inr [])"
    using c_str_NUL_head [OF pos] by simp
  then show ?thesis
    by simp
qed

subsection \<open>The encoder and the specification\<close>

lemma spec_base32_vector:
  "spec_base32 (map char_of [0xFF, 0x00, 0x0F, 0x10, 0xA5 :: nat]) = ''74aa6eff''"
  by code_simp

lemma spec_base32_zero: "spec_base32 (replicate 10 NUL) = ''aaaaaaaaaaaaaaaa''"
  by code_simp

text \<open>
  Claim C1, amended. For every byte sequence \<open>src\<close> of fewer than \<open>2 ^ 32\<close> windows
  (\<open>length src * 8 div 5 < 2 ^ 32\<close>, the range of the index \<open>i\<close>) whose bit length
  is a multiple of 5, the encoder, given a destination with room for the characters
  and the terminator, outputs exactly \<open>length src * 8 div 5\<close> characters, none of
  them padding: the \<open>i\<close>-th character is the alphabet indexed by the value of the
  \<open>i\<close>-th window of 5 bits of \<open>src\<close>, read most significant bit first.
\<close>

theorem base32_encode_windows:
  assumes "(length src * 8) mod 5 = 0" and "length src * 8 div 5 < 2 ^ 32"
    and "length src * 8 div 5 + 1 \<le> destlen" and "destlen \<le> length dest"
  shows "\<exists>dest'. base32_encode dest destlen src (length src) = Some (Inr dest')
           \<and> c_str dest' = spec_base32 src
           \<and> length (c_str dest') = length src * 8 div 5
           \<and> set (c_str dest') \<subseteq> set BASE32_CHARS
           \<and> (\<forall>i < length src * 8 div 5. c_str dest' ! i = BASE32_CHARS ! spec_window src i)"
proof -
  let ?dest' = "spec_base32 src @ NUL # drop (length src * 8 div 5 + 1) dest"
  have "base32_encode dest destlen src (length src) = Some (Inr ?dest')"
    using base32_encode_correct [OF order_refl assms] by simp
  moreover have "c_str ?dest' = spec_base32 src"
    by (rule c_str_spec_base32)
  moreover have "\<forall>i < length src * 8 div 5. spec_base32 src ! i = BASE32_CHARS ! spec_window src i"
    by (simp add: spec_base32_def)
  ultimately show ?thesis
    using spec_base32_alphabet [of src] by (simp add: length_spec_base32)
qed

text \<open>
  The theorem at the five bytes \<open>FF 00 0F 10 A5\<close> and a destination of 9 bytes: the
  string is \<^verbatim>\<open>74aa6eff\<close>.
\<close>

theorem base32_encode_windows_witness:
  "map_option (map_sum id c_str)
     (base32_encode (replicate 9 (CHR ''x'')) 9 (map char_of [0xFF, 0x00, 0x0F, 0x10, 0xA5 :: nat]) 5)
   = Some (Inr ''74aa6eff'')"
proof -
  let ?src = "map char_of [0xFF, 0x00, 0x0F, 0x10, 0xA5 :: nat]"
  let ?dest = "replicate 9 (CHR ''x'')"
  have l: "length ?src = 5" by simp
  have "\<exists>dest'. base32_encode ?dest 9 ?src (length ?src) = Some (Inr dest')
           \<and> c_str dest' = spec_base32 ?src
           \<and> length (c_str dest') = length ?src * 8 div 5
           \<and> set (c_str dest') \<subseteq> set BASE32_CHARS
           \<and> (\<forall>i < length ?src * 8 div 5. c_str dest' ! i = BASE32_CHARS ! spec_window ?src i)"
    by (rule base32_encode_windows) (simp_all only: l, simp_all)
  then obtain dest' where "base32_encode ?dest 9 ?src (length ?src) = Some (Inr dest')"
    and "c_str dest' = spec_base32 ?src"
    by blast
  then have "base32_encode ?dest 9 ?src 5 = Some (Inr dest')" and "c_str dest' = ''74aa6eff''"
    by (simp_all only: l spec_base32_vector)
  then show ?thesis by simp
qed

text \<open>
  Claim C7. Applying the encoder to the sequence of 10 zero bytes yields the string
  \<^verbatim>\<open>aaaaaaaaaaaaaaaa\<close> (16 characters), whatever the destination held before.
\<close>

theorem base32_encode_zeros:
  assumes "17 \<le> destlen" and "destlen \<le> length dest"
  shows "\<exists>dest'. base32_encode dest destlen (replicate 10 NUL) 10 = Some (Inr dest')
           \<and> c_str dest' = ''aaaaaaaaaaaaaaaa''"
proof -
  have "base32_encode dest destlen (replicate 10 NUL) 10
        = Some (Inr (spec_base32 (take 10 (replicate 10 NUL)) @ NUL # drop (10 * 8 div 5 + 1) dest))"
    using assms by (intro base32_encode_correct) simp_all
  then show ?thesis
    using c_str_spec_base32 [of "replicate 10 NUL"] by (simp add: spec_base32_zero)
qed

text \<open>The theorem at a destination of 17 bytes.\<close>

theorem base32_encode_zeros_witness:
  "(17::nat) \<le> 17 \<and> 17 \<le> length (replicate 17 (CHR ''x''))
   \<and> (\<exists>dest'. base32_encode (replicate 17 (CHR ''x'')) 17 (replicate 10 NUL) 10 = Some (Inr dest')
           \<and> c_str dest' = ''aaaaaaaaaaaaaaaa'')"
  using base32_encode_zeros [of 17 "replicate 17 (CHR ''x'')"] by simp

section \<open>Deriving the service identifier: proofs\<close>

lemma crypto_pk_get_digest_eq:
  "crypto_pk_get_digest E pk digest_out =
     (case i2d_RSAPublicKey E pk of
        None \<Rightarrow> Inl (Assertion_Failed 184)
      | Some buf \<Rightarrow>
          (case SHA1 E buf of
             None \<Rightarrow> Inl (Assertion_Failed 191)
           | Some d \<Rightarrow> Inr (True, d @ drop (length d) digest_out)))"
  by (simp add: crypto_pk_get_digest_def crypto_digest_def split: option.splits)

lemma rend_get_service_id_eq:
  assumes "REND_SERVICE_ID_LEN_BASE32 + 1 \<le> length out"
  shows "rend_get_service_id E pk out =
     (case i2d_RSAPublicKey E pk of
        None \<Rightarrow> Some (Inl (Assertion_Failed 184))
      | Some buf \<Rightarrow>
          (case SHA1 E buf of
             None \<Rightarrow> Some (Inl (Assertion_Failed 191))
           | Some d \<Rightarrow>
               Some (Inr (True,
                 spec_base32 (take REND_SERVICE_ID_LEN (d @ drop (length d) (replicate DIGEST_LEN NUL)))
                 @ NUL # drop (REND_SERVICE_ID_LEN_BASE32 + 1) out))))"
proof (cases "i2d_RSAPublicKey E pk")
  case None
  then show ?thesis
    by (simp add: rend_get_service_id_def crypto_pk_get_digest_eq)
next
  case (Some buf)
  show ?thesis
  proof (cases "SHA1 E buf")
    case None
    then show ?thesis
      using Some by (simp add: rend_get_service_id_def crypto_pk_get_digest_eq)
  next
    case d: (Some d)
    let ?buf = "d @ drop (length d) (replicate DIGEST_LEN NUL)"
    have len: "REND_SERVICE_ID_LEN \<le> length ?buf"
      by (simp add: REND_SERVICE_ID_LEN_def DIGEST_LEN_def)
    have "base32_encode out (REND_SERVICE_ID_LEN_BASE32 + 1) ?buf REND_SERVICE_ID_LEN
          = Some (Inr (spec_base32 (take REND_SERVICE_ID_LEN ?buf)
                       @ NUL # drop (REND_SERVICE_ID_LEN * 8 div 5 + 1) out))"
      using len assms
      by (intro base32_encode_correct)
         (simp_all add: REND_SERVICE_ID_LEN_def REND_SERVICE_ID_LEN_BASE32_def)
    then show ?thesis
      using Some d
      by (simp add: rend_get_service_id_def crypto_pk_get_digest_eq
          REND_SERVICE_ID_LEN_def REND_SERVICE_ID_LEN_BASE32_def)
  qed
qed

lemma mock_ids:
  "spec_base32 (replicate 10 (char_of (0::nat))) = ''aaaaaaaaaaaaaaaa''"
  "spec_base32 (replicate 10 (char_of (8::nat))) = ''baeaqcaibaeaqcai''"
  "spec_base32 (replicate 10 (char_of (16::nat))) = ''caibaeaqcaibaeaq''"
  by code_simp+

text \<open>
  Claim C2. For every public key whose encoding and digest the primitives deliver, the
  derivation takes the 20-byte digest of the DER encoding of the public part,
  truncates it to its first 10 bytes and base32-encodes these: the identifier has
  exactly 16 characters, each of them in the alphabet
  \<^verbatim>\<open>abcdefghijklmnopqrstuvwxyz234567\<close>.
\<close>

theorem rend_get_service_id_identifier:
  assumes der: "i2d_RSAPublicKey E pk = Some der" and digest: "SHA1 E der = Some digest"
    and dl: "length digest = DIGEST_LEN"
    and out: "REND_SERVICE_ID_LEN_BASE32 + 1 \<le> length out"
  shows "\<exists>out'. rend_get_service_id E pk out = Some (Inr (True, out'))
           \<and> c_str out' = spec_base32 (take 10 digest)
           \<and> length (c_str out') = 16
           \<and> set (c_str out') \<subseteq> set BASE32_CHARS"
proof -
  let ?out' = "spec_base32 (take 10 digest) @ NUL # drop (REND_SERVICE_ID_LEN_BASE32 + 1) out"
  have "rend_get_service_id E pk out = Some (Inr (True, ?out'))"
    using rend_get_service_id_eq [OF out, of E pk] der digest dl
    by (simp add: REND_SERVICE_ID_LEN_def)
  moreover have "c_str ?out' = spec_base32 (take 10 digest)"
    by (rule c_str_spec_base32)
  moreover have "length (spec_base32 (take 10 digest)) = 16"
    using dl by (simp add: length_spec_base32 DIGEST_LEN_def)
  ultimately show ?thesis
    using spec_base32_alphabet [of "take 10 digest"] by simp
qed

text \<open>The theorem at the key 2 of the mock: the identifier is \<^verbatim>\<open>caibaeaqcaibaeaq\<close>.\<close>

theorem rend_get_service_id_identifier_witness:
  "map_option (map_sum id (map_prod id c_str)) (rend_get_service_id mock 2 (replicate 17 NUL))
   = Some (Inr (True, ''caibaeaqcaibaeaq''))"
proof -
  let ?digest = "replicate 20 (char_of (16::nat))"
  have der: "i2d_RSAPublicKey mock 2 = Some [char_of (16::nat)]"
    by (simp add: mock_def)
  have digest: "SHA1 mock [char_of (16::nat)] = Some ?digest"
    by (simp add: mock_def)
  have dl: "length ?digest = DIGEST_LEN"
    by (simp add: DIGEST_LEN_def)
  have out: "REND_SERVICE_ID_LEN_BASE32 + 1 \<le> length (replicate 17 NUL)"
    by (simp add: REND_SERVICE_ID_LEN_BASE32_def)
  from rend_get_service_id_identifier [OF der digest dl out]
  obtain out' where "rend_get_service_id mock 2 (replicate 17 NUL) = Some (Inr (True, out'))"
    and "c_str out' = spec_base32 (take 10 ?digest)"
    by blast
  moreover have "spec_base32 (take 10 ?digest) = ''caibaeaqcaibaeaq''"
    using mock_ids(3) by simp
  ultimately show ?thesis by simp
qed

section \<open>The search: proofs\<close>

lemma service_id_of_eq:
  "service_id_of E pk =
     (case i2d_RSAPublicKey E pk of
        None \<Rightarrow> None
      | Some buf \<Rightarrow>
          (case SHA1 E buf of
             None \<Rightarrow> None
           | Some d \<Rightarrow> Some (spec_base32
               (take REND_SERVICE_ID_LEN (d @ drop (length d) (replicate DIGEST_LEN NUL))))))"
  unfolding service_id_of_def
  by (subst rend_get_service_id_eq)
     (simp_all add: c_str_spec_base32 split: option.splits)

lemma rend_get_service_id_of:
  assumes "service_id_of E pk = Some sid"
    and "length out = REND_SERVICE_ID_LEN_BASE32 + 1"
  shows "rend_get_service_id E pk out = Some (Inr (True, sid @ [NUL]))"
  using assms
  by (subst rend_get_service_id_eq)
     (auto simp: service_id_of_eq split: option.splits)

lemma service_id_of_length:
  assumes "service_id_of E pk = Some sid"
  shows "length sid = REND_SERVICE_ID_LEN_BASE32" and "NUL \<notin> set sid"
proof -
  obtain d where sid: "sid = spec_base32
      (take REND_SERVICE_ID_LEN (d @ drop (length d) (replicate DIGEST_LEN NUL)))"
    using assms by (auto simp: service_id_of_eq split: option.splits)
  have "REND_SERVICE_ID_LEN \<le> length (d @ drop (length d) (replicate DIGEST_LEN NUL))"
    by (simp add: REND_SERVICE_ID_LEN_def DIGEST_LEN_def)
  then have "length (take REND_SERVICE_ID_LEN (d @ drop (length d) (replicate DIGEST_LEN NUL)))
             = REND_SERVICE_ID_LEN"
    by (simp only: length_take min_absorb2)
  then show "length sid = REND_SERVICE_ID_LEN_BASE32"
    unfolding sid length_spec_base32
    by (simp add: REND_SERVICE_ID_LEN_def REND_SERVICE_ID_LEN_BASE32_def)
  show "NUL \<notin> set sid"
    using spec_base32_alphabet NUL_notin_BASE32_CHARS unfolding sid by blast
qed

lemma pattern_matches_buffer:
  assumes "NUL \<notin> set sid"
  shows "pattern_matches_service_id pattern (sid @ [NUL]) = pattern_matches_service_id pattern sid"
proof -
  have "c_str (sid @ [NUL]) = sid" using assms by (rule c_str_append_NUL)
  moreover have "c_str sid = sid" using assms by (auto simp: c_str_def)
  ultimately show ?thesis by (simp add: pattern_matches_service_id_iff)
qed

lemma search_loop_first_match:
  assumes gen: "\<And>k. k \<le> n \<Longrightarrow> RSA_generate_key E (m + k) = Some (keys k)"
    and ids: "\<And>k. k \<le> n \<Longrightarrow> service_id_of E (keys k) = Some (ids k)"
    and miss: "\<And>k. k < n \<Longrightarrow> \<not> pattern_matches_service_id pattern (ids k)"
    and hit: "pattern_matches_service_id pattern (ids n)"
    and buf: "length service_id = REND_SERVICE_ID_LEN_BASE32 + 1"
  shows "search_loop E pattern m service_id overwritten
         = Some (Inr (keys n, ids n @ [NUL], m + n + 1, overwritten @ map keys [0..<n]))"
  using assms
proof (induction n arbitrary: m keys ids service_id overwritten)
  case 0
  have k: "RSA_generate_key E m = Some (keys 0)" using "0.prems"(1) [of 0] by simp
  have d: "rend_get_service_id E (keys 0) service_id = Some (Inr (True, ids 0 @ [NUL]))"
    using "0.prems"(2) [of 0] "0.prems"(5) by (intro rend_get_service_id_of) simp_all
  have "pattern_matches_service_id pattern (ids 0 @ [NUL])"
    using service_id_of_length(2) [OF "0.prems"(2) [of 0]] "0.prems"(4)
    by (simp add: pattern_matches_buffer)
  then show ?case
    by (subst search_loop.simps) (simp add: k d)
next
  case (Suc n)
  have k: "RSA_generate_key E m = Some (keys 0)" using Suc.prems(1) [of 0] by simp
  have d: "rend_get_service_id E (keys 0) service_id = Some (Inr (True, ids 0 @ [NUL]))"
    using Suc.prems(2) [of 0] Suc.prems(5) by (intro rend_get_service_id_of) simp_all
  have nm: "\<not> pattern_matches_service_id pattern (ids 0 @ [NUL])"
    using service_id_of_length(2) [OF Suc.prems(2) [of 0]] Suc.prems(3) [of 0]
    by (simp add: pattern_matches_buffer)
  have l: "length (ids 0 @ [NUL]) = REND_SERVICE_ID_LEN_BASE32 + 1"
    using service_id_of_length(1) [OF Suc.prems(2) [of 0]] by simp
  have "search_loop E pattern (m + 1) (ids 0 @ [NUL]) (overwritten @ [keys 0])
        = Some (Inr ((keys \<circ> Suc) n, (ids \<circ> Suc) n @ [NUL], (m + 1) + n + 1,
                     (overwritten @ [keys 0]) @ map (keys \<circ> Suc) [0..<n]))"
  proof (rule Suc.IH [OF _ _ _ _ l])
    show "RSA_generate_key E (m + 1 + k) = Some ((keys \<circ> Suc) k)" if "k \<le> n" for k
      using Suc.prems(1) [of "Suc k"] that by simp
    show "service_id_of E ((keys \<circ> Suc) k) = Some ((ids \<circ> Suc) k)" if "k \<le> n" for k
      using Suc.prems(2) [of "Suc k"] that by simp
    show "\<not> pattern_matches_service_id pattern ((ids \<circ> Suc) k)" if "k < n" for k
      using Suc.prems(3) [of "Suc k"] that by simp
    show "pattern_matches_service_id pattern ((ids \<circ> Suc) n)"
      using Suc.prems(4) by simp
  qed
  moreover have "(overwritten @ [keys 0]) @ map (keys \<circ> Suc) [0..<n]
                 = overwritten @ map keys [0..<Suc n]"
    by (simp add: upt_conv_Cons map_Suc_upt [symmetric] del: upt_Suc)
  ultimately show ?case
    by (subst search_loop.simps) (simp add: k d nm del: upt_Suc)
qed



text \<open>
  What \<^verbatim>\<open>generate_service\<close> does around the loop: it reaches the loop when the two
  assertions of lines 93 and 94 pass, and then hands the key the loop ends with, and no
  other, to \<^verbatim>\<open>export_private_key\<close>.
\<close>

lemma generate_service_after_search:
  assumes gen: "\<And>k. k \<le> n \<Longrightarrow> RSA_generate_key E (keys_generated w + k) = Some (keys k)"
    and ids: "\<And>k. k \<le> n \<Longrightarrow> service_id_of E (keys k) = Some (ids k)"
    and miss: "\<And>k. k < n \<Longrightarrow> \<not> pattern_matches_service_id pattern (ids k)"
    and hit: "pattern_matches_service_id pattern (ids n)"
  shows "generate_service E pattern w
         = (case validate pattern of
              None \<Rightarrow> None
            | Some (Inl f) \<Rightarrow> Some (Inl f)
            | Some (Inr _) \<Rightarrow>
                Some (export_private_key E (keys n) pattern
                        (w\<lparr>keys_generated := keys_generated w + n + 1\<rparr>)))"
proof -
  have "search_loop E pattern (keys_generated w) (replicate (REND_SERVICE_ID_LEN_BASE32 + 1) NUL) []
        = Some (Inr (keys n, ids n @ [NUL], keys_generated w + n + 1, [] @ map keys [0..<n]))"
    using gen ids miss hit by (intro search_loop_first_match) simp_all
  then show ?thesis
    by (simp add: generate_service_def split: option.splits sum.splits)
qed



text \<open>
  Claim C9. When the program is started with a number of arguments other than one
  pattern (\<open>argc \<noteq> 2\<close>), it validates nothing, generates no key, searches nothing
  and exits with status 0: the world is left as it was and no assertion aborts.
\<close>

theorem main_without_pattern:
  "length argv \<noteq> 2 \<Longrightarrow> main E argv w = Some (Inr (0, w))"
  by (simp add: main_def)

text \<open>The theorem at three arguments, the second one an invalid pattern, and at one.\<close>

theorem main_without_pattern_witness:
  "main mock [''oniongen'', ''ABC'', ''x''] world\<^sub>0 = Some (Inr (0, world\<^sub>0))
   \<and> main mock [''oniongen''] world\<^sub>0 = Some (Inr (0, world\<^sub>0))"
  using main_without_pattern [of "[''oniongen'', ''ABC'', ''x'']" mock world\<^sub>0]
    main_without_pattern [of "[''oniongen'']" mock world\<^sub>0]
  by simp

end
